theory Spec2Isabelle
  imports Main "HOL-Library.Word"
begin

section \<open>The queue package: values\<close>

text \<open>
  The provider of the queue package (\<^verbatim>\<open>Provide\<close>, \<^verbatim>\<open>DispatcherFactory.Make\<close>,
  \<^verbatim>\<open>provideConfig\<close>) is embedded function by function. Objects that the provider only
  passes on (the inner dispatcher, the redis client, the logger) are handles; the
  \<^verbatim>\<open>*QueueableDispatcher\<close> values it creates live in a heap, so that "the same instance"
  is equality of addresses.
\<close>

type_synonym addr = nat

text \<open>A Go \<^verbatim>\<open>error\<close> value, identified by its message.\<close>

datatype error = Error string

text \<open>
  An interface value holding a pointer. A nil pointer stored in an interface-typed field is
  \<open>Holds None\<close>, which Go distinguishes from the nil interface.
\<close>

datatype 'a iface = NilInterface | Holds 'a

text \<open>The outcome of a call that may panic.\<close>

datatype 'a outcome = Return 'a | Panic

text \<open>\<^verbatim>\<open>type configuration struct\<close>; Go's \<^verbatim>\<open>int\<close> is taken at 64 bits.\<close>

record configuration =
  Parallelism :: "64 word"
  CheckQueueLengthIntervalSecond :: "64 word"

text \<open>
  \<^verbatim>\<open>map[string]configuration\<close>: an association list with the keys in the order in which
  \<^verbatim>\<open>range\<close> visits them; \<^verbatim>\<open>queueConfs[name]\<close> is \<open>map_of\<close>.
\<close>

type_synonym queueConfs = "(string \<times> configuration) list"

text \<open>
  \<^verbatim>\<open>metrics.Gauge\<close> of go-kit: a gauge is identified by the label values it carries, and
  \<^verbatim>\<open>With\<close> returns a gauge with the given label values appended.
\<close>

type_synonym metrics_Gauge = "string list"

definition Gauge_With :: "metrics_Gauge \<Rightarrow> string \<Rightarrow> string \<Rightarrow> metrics_Gauge" where
  "Gauge_With g k v = g @ [k, v]"

text \<open>
  \<^verbatim>\<open>contract.ConfigAccessor\<close>: \<^verbatim>\<open>Unmarshal(path, &target)\<close> yields its error and the
  value it left in the (initially nil) target.
\<close>

type_synonym ConfigAccessor = "string \<Rightarrow> error option \<times> queueConfs"

record DispatcherIn =
  Conf :: ConfigAccessor
  Dispatcher :: addr
  RedisClient :: addr
  Logger :: addr
  AppName :: string
  Env :: string
  Gauge :: "metrics_Gauge option"

record ChannelConfig =
  Delayed :: string
  Failed :: string
  Reserved :: string
  Waiting :: string
  Timeout :: string

record RedisDriver =
  drv_Logger :: addr
  drv_RedisClient :: addr
  drv_ChannelConfig :: ChannelConfig

text \<open>
  Modelled from the spec: \<^verbatim>\<open>WithQueue\<close>, \<^verbatim>\<open>UseLogger\<close>, \<^verbatim>\<open>UseParallelism\<close>,
  \<^verbatim>\<open>UseGauge\<close> and the type \<^verbatim>\<open>QueueableDispatcher\<close> are not among the sources at hand.
  A dispatcher is the record of what its constructor was given: the inner dispatcher, the
  driver, the logger, the parallelism, the gauge and the interval of the queue length check
  (a \<^verbatim>\<open>time.Duration\<close>, int64 nanoseconds).
\<close>

record QueueableDispatcher =
  qd_base :: addr
  qd_driver :: RedisDriver
  qd_logger :: addr
  qd_parallelism :: "64 word"
  qd_gauge :: "metrics_Gauge option"
  qd_interval :: "64 word"

definition WithQueue ::
  "addr \<Rightarrow> RedisDriver \<Rightarrow> addr \<Rightarrow> 64 word \<Rightarrow> metrics_Gauge option \<Rightarrow> 64 word
    \<Rightarrow> QueueableDispatcher" where
  "WithQueue baseDispatcher driver logger parallelism gauge interval =
     \<lparr>qd_base = baseDispatcher, qd_driver = driver, qd_logger = logger,
      qd_parallelism = parallelism, qd_gauge = gauge, qd_interval = interval\<rparr>"

text \<open>\<^verbatim>\<open>time.Second\<close>, in nanoseconds.\<close>

definition time_Second :: "64 word" where
  "time_Second = 1000000000"

text \<open>What lies outside the provider: the dispatchers allocated so far and the log.\<close>

record world =
  heap :: "QueueableDispatcher list"
  logged :: "string list list"

text \<open>\<^verbatim>\<open>&QueueableDispatcher{...}\<close>: the new object gets the next free address.\<close>

definition alloc :: "QueueableDispatcher \<Rightarrow> world \<Rightarrow> addr \<times> world" where
  "alloc d w = (length (heap w), w\<lparr>heap := heap w @ [d]\<rparr>)"

text \<open>\<^verbatim>\<open>level.Warn(logger).Log("err", err)\<close>.\<close>

definition Warn_Log :: "error \<Rightarrow> world \<Rightarrow> world" where
  "Warn_Log e w =
     (case e of Error msg \<Rightarrow> w\<lparr>logged := logged w @ [[''level'', ''warn'', ''err'', msg]]\<rparr>)"

section \<open>The factory of package di\<close>

text \<open>
  \<^verbatim>\<open>di.Pair\<close>: \<^verbatim>\<open>Conn\<close> is an \<^verbatim>\<open>interface{}\<close>, which holds a dispatcher pointer or
  something else; \<^verbatim>\<open>Closer\<close> is a teardown function or nil.
\<close>

datatype conn = DispatcherPtr addr | OtherConn

record Pair =
  Closer :: "unit option"
  Conn :: conn

text \<open>
  Modelled from the spec: \<^verbatim>\<open>di.Factory\<close>, \<^verbatim>\<open>di.NewFactory\<close> and \<^verbatim>\<open>Factory.Make\<close> are
  not among the sources at hand. The spec describes "a keyed registry with lazy, memoized
  construction (construct-once-per-name, return cached instance thereafter)". The
  constructor is a closure: its code and the variables it captured, which it may assign.
  A constructor error is handed to the caller and nothing is cached.
\<close>

record 'e Factory =
  cache :: "string \<rightharpoonup> Pair"
  constructor :: "string \<Rightarrow> 'e \<Rightarrow> world \<Rightarrow> (error + Pair) \<times> 'e \<times> world"
  captured :: "'e"

definition NewFactory ::
  "(string \<Rightarrow> 'e \<Rightarrow> world \<Rightarrow> (error + Pair) \<times> 'e \<times> world) \<Rightarrow> 'e \<Rightarrow> 'e Factory" where
  "NewFactory ctor env = \<lparr>cache = Map.empty, constructor = ctor, captured = env\<rparr>"

definition Factory_Make ::
  "'e Factory \<Rightarrow> string \<Rightarrow> world \<Rightarrow> (error + conn) \<times> 'e Factory \<times> world" where
  "Factory_Make f name w =
     (case cache f name of
        Some slot \<Rightarrow> (Inr (Conn slot), f, w)
      | None \<Rightarrow>
          (case constructor f name (captured f) w of
             (Inl err, env', w') \<Rightarrow> (Inl err, f\<lparr>captured := env'\<rparr>, w')
           | (Inr pair, env', w') \<Rightarrow>
               (Inr (Conn pair), f\<lparr>cache := (cache f)(name \<mapsto> pair), captured := env'\<rparr>, w')))"

section \<open>The provider\<close>

text \<open>
  \<^verbatim>\<open>DispatcherFactory.Make\<close>: the error of the factory is returned with a nil dispatcher;
  otherwise the connection is asserted to be a \<^verbatim>\<open>*QueueableDispatcher\<close>, which panics on
  anything else.
\<close>

definition DispatcherFactory_Make ::
  "'e Factory \<Rightarrow> string \<Rightarrow> world \<Rightarrow> (addr option \<times> error option) outcome \<times> 'e Factory \<times> world"
  where
  "DispatcherFactory_Make s name w =
     (case Factory_Make s name w of
        (Inl err, s', w') \<Rightarrow> (Return (None, Some err), s', w')
      | (Inr client, s', w') \<Rightarrow>
          (case client of
             DispatcherPtr a \<Rightarrow> (Return (Some a, None), s', w')
           | OtherConn \<Rightarrow> (Panic, s', w')))"

text \<open>\<^verbatim>\<open>config.ExportedConfig\<close>, with the data of the queue package.\<close>

record ExportedConfig =
  Owner :: string
  Data :: "(string \<times> queueConfs) list"
  Comment :: string

text \<open>\<^verbatim>\<open>provideConfig\<close>; \<^verbatim>\<open>runtime.NumCPU()\<close> is a parameter.\<close>

definition provideConfig :: "64 word \<Rightarrow> ExportedConfig list" where
  "provideConfig NumCPU =
     [\<lparr>Owner = ''queue'',
       Data = [(''queue'',
                [(''default'',
                  \<lparr>Parallelism = NumCPU, CheckQueueLengthIntervalSecond = 15\<rparr>)])],
       Comment = ''''\<rparr>]"

text \<open>\<^verbatim>\<open>fmt.Sprintf("{%s:%s:%s}:" + segment, app, env, name)\<close>.\<close>

definition Sprintf_key :: "string \<Rightarrow> string \<Rightarrow> string \<Rightarrow> string \<Rightarrow> string" where
  "Sprintf_key segment app env name =
     ''{'' @ app @ '':'' @ env @ '':'' @ name @ ''}:'' @ segment"

definition channelConfig :: "string \<Rightarrow> string \<Rightarrow> string \<Rightarrow> ChannelConfig" where
  "channelConfig app env name =
     \<lparr>Delayed = Sprintf_key ''delayed'' app env name,
      Failed = Sprintf_key ''failed'' app env name,
      Reserved = Sprintf_key ''reserved'' app env name,
      Waiting = Sprintf_key ''waiting'' app env name,
      Timeout = Sprintf_key ''timeout'' app env name\<rparr>"

text \<open>
  The variables the factory closure of \<^verbatim>\<open>Provide\<close> captures: the parameter \<^verbatim>\<open>p\<close>, whose
  \<^verbatim>\<open>Gauge\<close> field the closure assigns, and \<^verbatim>\<open>queueConfs\<close>.
\<close>

record closure_env =
  env_p :: DispatcherIn
  env_queueConfs :: queueConfs

text \<open>The closure given to \<^verbatim>\<open>di.NewFactory\<close> in \<^verbatim>\<open>Provide\<close>.\<close>

definition Provide_constructor ::
  "string \<Rightarrow> closure_env \<Rightarrow> world \<Rightarrow> (error + Pair) \<times> closure_env \<times> world" where
  "Provide_constructor name env w =
     (case map_of (env_queueConfs env) name of
        None \<Rightarrow> (Inl (Error (''queue configuration '' @ name @ '' not found'')), env, w)
      | Some conf \<Rightarrow>
          (let p = env_p env;
               p = (case Gauge p of
                      None \<Rightarrow> p
                    | Some g \<Rightarrow> p\<lparr>Gauge := Some (Gauge_With g ''queue'' name)\<rparr>);
               redisDriver =
                 \<lparr>drv_Logger = Logger p, drv_RedisClient = RedisClient p,
                  drv_ChannelConfig = channelConfig (AppName p) (Env p) name\<rparr>;
               (queuedDispatcher, w') =
                 alloc (WithQueue (Dispatcher p) redisDriver (Logger p) (Parallelism conf)
                          (Gauge p) (CheckQueueLengthIntervalSecond conf * time_Second)) w
           in (Inr \<lparr>Closer = None, Conn = DispatcherPtr queuedDispatcher\<rparr>,
               env\<lparr>env_p := p\<rparr>, w')))"

text \<open>\<^verbatim>\<open>for name := range queueConfs { factory.Make(name) }\<close>: the results are dropped.\<close>

fun Make_each :: "string list \<Rightarrow> 'e Factory \<Rightarrow> world \<Rightarrow> 'e Factory \<times> world" where
  "Make_each [] f w = (f, w)"
| "Make_each (name # names) f w =
     (case Factory_Make f name w of (_, f', w') \<Rightarrow> Make_each names f' w')"

record DispatcherOut =
  out_Dispatcher :: "addr option iface"
  out_DispatcherMaker :: "closure_env Factory iface"
  out_QueueableDispatcher :: "addr option"
  out_DispatcherFactory :: "closure_env Factory"
  out_ExportedConfig :: "ExportedConfig list"

text \<open>
  \<^verbatim>\<open>Provide\<close>. The factory is returned by pointer: the record holds its state at the
  return. The second component of the result is the error.
\<close>

definition Provide ::
  "64 word \<Rightarrow> DispatcherIn \<Rightarrow> world \<Rightarrow> (DispatcherOut \<times> error option) outcome \<times> world" where
  "Provide NumCPU p w =
     (case Conf p ''queue'' of
        (err, queueConfs) \<Rightarrow>
          (let w1 = (case err of None \<Rightarrow> w | Some e \<Rightarrow> Warn_Log e w);
               factory = NewFactory Provide_constructor \<lparr>env_p = p, env_queueConfs = queueConfs\<rparr>;
               (factory1, w2) = Make_each (map fst queueConfs) factory w1
           in case DispatcherFactory_Make factory1 ''default'' w2 of
                (Panic, _, w3) \<Rightarrow> (Panic, w3)
              | (Return (defaultQueueableDispatcher, _), dispatcherFactory, w3) \<Rightarrow>
                  (Return
                     (\<lparr>out_Dispatcher = Holds defaultQueueableDispatcher,
                       out_DispatcherMaker = Holds dispatcherFactory,
                       out_QueueableDispatcher = defaultQueueableDispatcher,
                       out_DispatcherFactory = dispatcherFactory,
                       out_ExportedConfig = provideConfig NumCPU\<rparr>,
                      None),
                   w3)))"

section \<open>Notions used to state the properties of the provider\<close>

text \<open>The assignment \<^verbatim>\<open>p.Gauge = p.Gauge.With("queue", name)\<close> of the closure, on its own.\<close>

definition labelled :: "string \<Rightarrow> DispatcherIn \<Rightarrow> DispatcherIn" where
  "labelled name p =
     (case Gauge p of None \<Rightarrow> p | Some g \<Rightarrow> p\<lparr>Gauge := Some (Gauge_With g ''queue'' name)\<rparr>)"

text \<open>The dispatcher the closure builds from the (already assigned) \<^verbatim>\<open>p\<close>.\<close>

definition dispatcher_of :: "DispatcherIn \<Rightarrow> string \<Rightarrow> configuration \<Rightarrow> QueueableDispatcher" where
  "dispatcher_of p name conf =
     \<lparr>qd_base = Dispatcher p,
      qd_driver = \<lparr>drv_Logger = Logger p, drv_RedisClient = RedisClient p,
                  drv_ChannelConfig = channelConfig (AppName p) (Env p) name\<rparr>,
      qd_logger = Logger p, qd_parallelism = Parallelism conf, qd_gauge = Gauge p,
      qd_interval = CheckQueueLengthIntervalSecond conf * time_Second\<rparr>"

text \<open>
  A factory made by \<^verbatim>\<open>Provide\<close> over the configuration \<open>confs\<close>: its constructor is the
  closure, and whatever it has cached is a dispatcher of a configured name.
\<close>

definition provided :: "queueConfs \<Rightarrow> closure_env Factory \<Rightarrow> bool" where
  "provided confs f \<longleftrightarrow>
     constructor f = Provide_constructor \<and> env_queueConfs (captured f) = confs \<and>
     (\<forall>name pair. cache f name = Some pair \<longrightarrow>
        name \<in> fst ` set confs \<and> (\<exists>a. Conn pair = DispatcherPtr a))"

text \<open>The label values that \<^verbatim>\<open>With("queue", name)\<close> adds for a list of names.\<close>

definition queue_labels :: "string list \<Rightarrow> string list" where
  "queue_labels names = concat (map (\<lambda>name. [''queue'', name]) names)"

text \<open>The four segments that hold events, and the key the driver is given for each.\<close>

datatype segment = Delayed_segment | Failed_segment | Reserved_segment | Waiting_segment

fun segment_key :: "ChannelConfig \<Rightarrow> segment \<Rightarrow> string" where
  "segment_key c Delayed_segment = Delayed c"
| "segment_key c Failed_segment = Failed c"
| "segment_key c Reserved_segment = Reserved c"
| "segment_key c Waiting_segment = Waiting c"

fun segment_name :: "segment \<Rightarrow> string" where
  "segment_name Delayed_segment = ''delayed''"
| "segment_name Failed_segment = ''failed''"
| "segment_name Reserved_segment = ''reserved''"
| "segment_name Waiting_segment = ''waiting''"

definition colon_free :: "string \<Rightarrow> bool" where
  "colon_free s \<longleftrightarrow> CHR '':'' \<notin> set s"

subsection \<open>Concrete inputs\<close>

definition world0 :: world where
  "world0 = \<lparr>heap = [], logged = []\<rparr>"

text \<open>A configuration with the queues "default" and "mail".\<close>

definition conf_example :: ConfigAccessor where
  "conf_example path =
     (if path = ''queue''
      then (None, [(''default'', \<lparr>Parallelism = 2, CheckQueueLengthIntervalSecond = 15\<rparr>),
                   (''mail'', \<lparr>Parallelism = 1, CheckQueueLengthIntervalSecond = 30\<rparr>)])
      else (None, []))"

definition p_example :: DispatcherIn where
  "p_example = \<lparr>Conf = conf_example, Dispatcher = 0, RedisClient = 1, Logger = 2,
                 AppName = ''shop'', Env = ''production'', Gauge = Some [''app'', ''shop'']\<rparr>"

text \<open>A configuration whose "queue" section does not unmarshal.\<close>

definition conf_malformed :: ConfigAccessor where
  "conf_malformed path = (Some (Error ''cannot unmarshal !!seq into map''), [])"

definition p_malformed :: DispatcherIn where
  "p_malformed = \<lparr>Conf = conf_malformed, Dispatcher = 0, RedisClient = 1, Logger = 2,
                   AppName = ''shop'', Env = ''production'', Gauge = None\<rparr>"

section \<open>The queue driver and the consumer\<close>

text \<open>
  The drivers (\<^verbatim>\<open>NewInProcessDriver\<close>, \<^verbatim>\<open>RedisDriver\<close>'s methods) and the methods of
  \<^verbatim>\<open>QueueableDispatcher\<close> (\<^verbatim>\<open>Dispatch\<close>, \<^verbatim>\<open>Subscribe\<close>, \<^verbatim>\<open>Consume\<close>) are not among
  the sources at hand; only the example that calls them is. This section models them from
  the specification: the in-memory driver of its sections 3 and 4.1, the dispatch options
  of section 6 and the loops of section 4.2. Time is a logical clock in milliseconds that
  every operation is given; the operations are atomic, as section 5 requires.
\<close>

type_synonym token = nat
type_synonym time = nat

text \<open>Modelled from the spec: the event of section 3 (the type is absent from the sources).\<close>

record event =
  kind :: string
  payload :: string
  visible_at :: "time option"
  attempt :: nat

text \<open>
  Modelled from the spec: the four segments of section 3, kept by the absent in-memory
  driver. Delayed is ordered by \<open>visible_at\<close>, Waiting by arrival; a reserved event carries
  its reservation deadline. Tokens are handed out in sequence. \<open>deleted\<close> records the tokens
  acknowledged and deleted, the fifth place of the segment exclusivity property.
\<close>

record driver =
  delayed :: "(token \<times> event) list"
  waiting :: "(token \<times> event) list"
  reserved :: "(token \<times> event \<times> time) list"
  failed :: "(token \<times> event) list"
  deleted :: "token list"
  next_token :: token
  processing_timeout :: time

text \<open>Modelled from the spec: the absent \<^verbatim>\<open>NewInProcessDriver\<close>, with nothing stored.\<close>

definition NewInProcessDriver :: "time \<Rightarrow> driver" where
  "NewInProcessDriver timeout =
     \<lparr>delayed = [], waiting = [], reserved = [], failed = [], deleted = [], next_token = 0,
      processing_timeout = timeout\<rparr>"

text \<open>
  Modelled from the spec: "\<open>visible_at\<close>: timestamp after which the event becomes eligible
  for delivery (absent: immediately eligible)".
\<close>

definition is_due :: "time \<Rightarrow> token \<times> event \<Rightarrow> bool" where
  "is_due now entry = (case visible_at (snd entry) of None \<Rightarrow> True | Some v \<Rightarrow> v \<le> now)"

text \<open>Modelled from the spec: the key that orders Delayed.\<close>

definition visible_key :: "token \<times> event \<Rightarrow> time" where
  "visible_key entry = (case visible_at (snd entry) of None \<Rightarrow> 0 | Some v \<Rightarrow> v)"

text \<open>Modelled from the spec: a reservation whose deadline has elapsed.\<close>

definition is_expired :: "time \<Rightarrow> token \<times> event \<times> time \<Rightarrow> bool" where
  "is_expired now r = (snd (snd r) \<le> now)"

text \<open>
  Modelled from the spec: the absent \<^verbatim>\<open>Push\<close>. "Stores the event in Delayed if
  \<open>delay > 0\<close>, else directly in Waiting", with \<open>visible_at = now + delay\<close>.
\<close>

definition Push :: "event \<Rightarrow> time \<Rightarrow> time \<Rightarrow> driver \<Rightarrow> token \<times> driver" where
  "Push e delay now s =
     (let t = next_token s in
      if 0 < delay
      then (t, s\<lparr>delayed := insort_key visible_key (t, e\<lparr>visible_at := Some (now + delay)\<rparr>)
                               (delayed s),
                 next_token := Suc t\<rparr>)
      else (t, s\<lparr>waiting := waiting s @ [(t, e)], next_token := Suc t\<rparr>))"

text \<open>
  Modelled from the spec: the absent \<^verbatim>\<open>Pop\<close>. It returns none when nothing is waiting at
  the end of its timeout; otherwise it "atomically moves it to Reserved with a fresh
  reservation deadline", now plus the fixed processing timeout.
\<close>

definition Pop :: "time \<Rightarrow> driver \<Rightarrow> (event \<times> token) option \<times> driver" where
  "Pop now s =
     (case waiting s of
        [] \<Rightarrow> (None, s)
      | (t, e) # rest \<Rightarrow>
          (Some (e, t),
           s\<lparr>waiting := rest, reserved := reserved s @ [(t, e, now + processing_timeout s)]\<rparr>))"

text \<open>
  Modelled from the spec: the absent \<^verbatim>\<open>Ack\<close>. It "deletes the event from Reserved";
  a token that is not reserved is left alone. The first component is the error.
\<close>

definition Ack :: "token \<Rightarrow> driver \<Rightarrow> error option \<times> driver" where
  "Ack t s =
     (case find (\<lambda>r. fst r = t) (reserved s) of
        None \<Rightarrow> (None, s)
      | Some r \<Rightarrow>
          (None, s\<lparr>reserved := filter (\<lambda>r. fst r \<noteq> t) (reserved s), deleted := deleted s @ [t]\<rparr>))"

text \<open>Modelled from the spec: the absent \<^verbatim>\<open>Fail\<close>, which "moves the event from Reserved to Failed".\<close>

definition Fail :: "token \<Rightarrow> driver \<Rightarrow> error option \<times> driver" where
  "Fail t s =
     (case find (\<lambda>r. fst r = t) (reserved s) of
        None \<Rightarrow> (None, s)
      | Some r \<Rightarrow>
          (None, s\<lparr>reserved := filter (\<lambda>r. fst r \<noteq> t) (reserved s),
                   failed := failed s @ [(t, fst (snd r))]\<rparr>))"

text \<open>
  Modelled from the spec: the absent \<^verbatim>\<open>Promote\<close>. It "scans Delayed for entries with
  \<open>visible_at <= now\<close> and moves them to Waiting; scans Reserved for entries whose
  reservation deadline has elapsed and moves them back to Waiting".
\<close>

definition Promote :: "time \<Rightarrow> driver \<Rightarrow> driver" where
  "Promote now s =
     s\<lparr>delayed := filter (\<lambda>entry. \<not> is_due now entry) (delayed s),
       reserved := filter (\<lambda>r. \<not> is_expired now r) (reserved s),
       waiting := waiting s @ filter (is_due now) (delayed s)
                    @ map (\<lambda>r. (fst r, fst (snd r))) (filter (is_expired now) (reserved s))\<rparr>"

text \<open>
  Modelled from the spec: what the callers of a driver can do to it, each operation at its
  time; a history of the driver is a list of them.
\<close>

datatype operation =
  Push_op event time | Pop_op | Ack_op token | Fail_op token | Promote_op

fun step :: "time \<times> operation \<Rightarrow> driver \<Rightarrow> driver" where
  "step (now, Push_op e delay) s = snd (Push e delay now s)"
| "step (now, Pop_op) s = snd (Pop now s)"
| "step (now, Ack_op t) s = snd (Ack t s)"
| "step (now, Fail_op t) s = snd (Fail t s)"
| "step (now, Promote_op) s = Promote now s"

fun run :: "(time \<times> operation) list \<Rightarrow> driver \<Rightarrow> driver" where
  "run [] s = s"
| "run (x # xs) s = run xs (step x s)"

text \<open>
  In how many of the five places (Delayed, Waiting, Reserved, Failed, deleted) a token is,
  counted with multiplicity.
\<close>

definition memberships :: "driver \<Rightarrow> token \<Rightarrow> nat" where
  "memberships s t =
     count_list (map fst (delayed s)) t + count_list (map fst (waiting s)) t
     + count_list (map fst (reserved s)) t + count_list (map fst (failed s)) t
     + count_list (deleted s) t"

text \<open>Every token handed out is in one place, and no other token is anywhere.\<close>

definition well_formed :: "driver \<Rightarrow> bool" where
  "well_formed s \<longleftrightarrow> (\<forall>t. memberships s t = (if t < next_token s then 1 else 0))"

subsection \<open>The dispatcher over a driver\<close>

text \<open>
  Modelled from the spec: a listener of the absent inner dispatcher. It is registered for
  one kind of event; its handler prints lines and may return an error.
\<close>

record listener =
  on_kind :: string
  handler :: "event \<Rightarrow> string list \<times> error option"

text \<open>
  Modelled from the spec: the state of the absent queueable dispatcher while it runs: its
  driver, the listeners of the inner dispatcher and what the listeners have printed.
\<close>

record dispatcher_state =
  drv :: driver
  listeners :: "listener list"
  printed :: "string list"

text \<open>
  Modelled from the spec: the dispatch options of section 6. An event is dispatched plainly
  (delivered at once) or through \<^verbatim>\<open>Persist\<close>, with a delay when \<^verbatim>\<open>Defer\<close> is given and
  delay 0 otherwise.
\<close>

datatype persist_option = Defer time

datatype dispatched = Plain event | Persist event "persist_option list"

fun delay_of :: "persist_option list \<Rightarrow> time" where
  "delay_of [] = 0"
| "delay_of (Defer d # opts) = (if opts = [] then d else delay_of opts)"

text \<open>
  Modelled from the spec: the absent synchronous inner dispatcher. The listeners of the
  event's kind run in order; the first error ends the delivery.
\<close>

fun deliver :: "listener list \<Rightarrow> event \<Rightarrow> string list \<times> error option" where
  "deliver [] e = ([], None)"
| "deliver (l # ls) e =
     (if on_kind l = kind e
      then (case handler l e of
              (out, Some err) \<Rightarrow> (out, Some err)
            | (out, None) \<Rightarrow> (case deliver ls e of (out', r) \<Rightarrow> (out @ out', r)))
      else deliver ls e)"

text \<open>
  Modelled from the spec: the absent \<^verbatim>\<open>Dispatch\<close>. Immediate delivery hands the listener
  error to the caller; a persisted event is pushed to the driver.
\<close>

definition Dispatch ::
  "time \<Rightarrow> dispatched \<Rightarrow> dispatcher_state \<Rightarrow> error option \<times> dispatcher_state" where
  "Dispatch now x q =
     (case x of
        Plain e \<Rightarrow>
          (case deliver (listeners q) e of (out, err) \<Rightarrow> (err, q\<lparr>printed := printed q @ out\<rparr>))
      | Persist e opts \<Rightarrow>
          (case Push e (delay_of opts) now (drv q) of (t, d) \<Rightarrow> (None, q\<lparr>drv := d\<rparr>)))"

text \<open>
  Modelled from the spec: one turn of a worker loop of the absent \<^verbatim>\<open>Consume\<close>. It pops;
  on an event it runs the listeners, then "on listener success, calls Ack; on listener
  error, calls Fail".
\<close>

definition worker_step :: "time \<Rightarrow> dispatcher_state \<Rightarrow> dispatcher_state" where
  "worker_step now q =
     (case Pop now (drv q) of
        (None, d) \<Rightarrow> q\<lparr>drv := d\<rparr>
      | (Some (e, t), d) \<Rightarrow>
          (case deliver (listeners q) e of
             (out, None) \<Rightarrow> q\<lparr>drv := snd (Ack t d), printed := printed q @ out\<rparr>
           | (out, Some err) \<Rightarrow> q\<lparr>drv := snd (Fail t d), printed := printed q @ out\<rparr>))"

text \<open>
  Modelled from the spec: what the loops of the absent \<^verbatim>\<open>Consume\<close> do at one promotion
  time: the promotion loop promotes, and the workers take everything that waits.
\<close>

definition tick :: "time \<Rightarrow> dispatcher_state \<Rightarrow> dispatcher_state" where
  "tick now q =
     (let d = Promote now (drv q)
      in (worker_step now ^^ length (waiting d)) (q\<lparr>drv := d\<rparr>))"

text \<open>Modelled from the spec: the absent \<^verbatim>\<open>Consume\<close>, over the promotion times until it is cancelled.\<close>

definition Consume :: "time list \<Rightarrow> dispatcher_state \<Rightarrow> dispatcher_state" where
  "Consume ticks q = fold tick ticks q"

text \<open>
  Modelled from the spec: the promotion loop runs "on a fixed short interval"; started at
  time 0 and cancelled at \<open>duration\<close>, it promotes at the multiples of the interval.
\<close>

definition promotion_times :: "time \<Rightarrow> time \<Rightarrow> time list" where
  "promotion_times interval duration =
     map (\<lambda>i. i * interval) [1..<Suc (duration div interval)]"

text \<open>The first promotion time at or after \<open>t\<close>.\<close>

definition next_promotion :: "time \<Rightarrow> time \<Rightarrow> time" where
  "next_promotion interval t = ((t + interval - 1) div interval) * interval"

text \<open>
  Modelled from the spec: \<^verbatim>\<open>events.Of\<close> of the absent events package, for the integers
  of the example: the kind is the type of the data.
\<close>

definition Of :: "string \<Rightarrow> event" where
  "Of data = \<lparr>kind = ''int'', payload = data, visible_at = None, attempt = 0\<rparr>"

text \<open>The listener of \<^verbatim>\<open>Example_minimum\<close>: it prints the data of an integer event.\<close>

definition example_listeners :: "listener list" where
  "example_listeners = [\<lparr>on_kind = ''int'', handler = (\<lambda>e. ([payload e], None))\<rparr>]"

text \<open>
  \<^verbatim>\<open>Example_minimum\<close>: the consumer is started, the listener subscribed, event 1 is
  dispatched with \<^verbatim>\<open>Defer(time.Second)\<close> and event 2 with \<^verbatim>\<open>Defer(time.Hour)\<close>, and the
  consumer is cancelled after two seconds. The result holds what was printed.
\<close>

definition Example_minimum :: "time \<Rightarrow> time \<Rightarrow> dispatcher_state" where
  "Example_minimum timeout interval =
     (let q0 = \<lparr>drv = NewInProcessDriver timeout, listeners = example_listeners, printed = []\<rparr>;
          q1 = snd (Dispatch 0 (Persist (Of ''1'') [Defer 1000]) q0);
          q2 = snd (Dispatch 0 (Persist (Of ''2'') [Defer 3600000]) q1)
      in Consume (promotion_times interval 2000) q2)"

text \<open>The two states the example passes through: both events delayed, and the first delivered.\<close>

definition both_pending :: "time \<Rightarrow> dispatcher_state" where
  "both_pending timeout =
     \<lparr>drv = \<lparr>delayed = [(0, (Of ''1'')\<lparr>visible_at := Some 1000\<rparr>),
                        (1, (Of ''2'')\<lparr>visible_at := Some 3600000\<rparr>)],
             waiting = [], reserved = [], failed = [], deleted = [], next_token = 2,
             processing_timeout = timeout\<rparr>,
      listeners = example_listeners, printed = []\<rparr>"

definition first_delivered :: "time \<Rightarrow> dispatcher_state" where
  "first_delivered timeout =
     \<lparr>drv = \<lparr>delayed = [(1, (Of ''2'')\<lparr>visible_at := Some 3600000\<rparr>)],
             waiting = [], reserved = [], failed = [], deleted = [0], next_token = 2,
             processing_timeout = timeout\<rparr>,
      listeners = example_listeners, printed = [''1'']\<rparr>"

section \<open>The factory made by the provider\<close>

text \<open>What the closure and the factory do, case by case.\<close>

lemma Provide_constructor_missing:
  "map_of (env_queueConfs env) name = None \<Longrightarrow>
   Provide_constructor name env w =
     (Inl (Error (''queue configuration '' @ name @ '' not found'')), env, w)"
  by (simp add: Provide_constructor_def)

lemma Provide_constructor_found:
  "map_of (env_queueConfs env) name = Some conf \<Longrightarrow>
   Provide_constructor name env w =
     (Inr \<lparr>Closer = None, Conn = DispatcherPtr (length (heap w))\<rparr>,
      env\<lparr>env_p := labelled name (env_p env)\<rparr>,
      w\<lparr>heap := heap w @ [dispatcher_of (labelled name (env_p env)) name conf]\<rparr>)"
  by (simp add: Provide_constructor_def alloc_def labelled_def dispatcher_of_def WithQueue_def Let_def split: option.splits)

lemma Factory_Make_cached:
  "cache f name = Some slot \<Longrightarrow> Factory_Make f name w = (Inr (Conn slot), f, w)"
  by (simp add: Factory_Make_def)

lemma Factory_Make_missing:
  "provided confs f \<Longrightarrow> map_of confs name = None \<Longrightarrow>
   Factory_Make f name w = (Inl (Error (''queue configuration '' @ name @ '' not found'')), f, w)"
  apply (cases "cache f name")
  apply (simp add: Factory_Make_def provided_def Provide_constructor_missing)
  apply (auto simp: provided_def map_of_eq_None_iff)
  done

lemma Factory_Make_fresh:
  "provided confs f \<Longrightarrow> cache f name = None \<Longrightarrow> map_of confs name = Some conf \<Longrightarrow>
   Factory_Make f name w =
     (Inr (DispatcherPtr (length (heap w))),
      f\<lparr>cache := (cache f)(name \<mapsto> \<lparr>Closer = None, Conn = DispatcherPtr (length (heap w))\<rparr>),
        captured := (captured f)\<lparr>env_p := labelled name (env_p (captured f))\<rparr>\<rparr>,
      w\<lparr>heap := heap w @ [dispatcher_of (labelled name (env_p (captured f))) name conf]\<rparr>)"
  by (simp add: Factory_Make_def provided_def Provide_constructor_found)

lemma provided_Factory_Make:
  assumes "provided confs f" and "Factory_Make f name w = (r, f', w')"
  shows "provided confs f'"
proof (cases "cache f name")
  case (Some slot)
  with assms show ?thesis by (simp add: Factory_Make_cached)
next
  case None
  show ?thesis
  proof (cases "map_of confs name")
    case N: None
    with assms show ?thesis by (simp add: Factory_Make_missing)
  next
    case (Some conf)
    from Factory_Make_fresh[OF assms(1) None Some, of w] assms(2)
    have f': "f' = f\<lparr>cache := (cache f)(name \<mapsto> \<lparr>Closer = None, Conn = DispatcherPtr (length (heap w))\<rparr>),
        captured := (captured f)\<lparr>env_p := labelled name (env_p (captured f))\<rparr>\<rparr>" by simp
    from Some have "name \<in> fst ` set confs" by (metis map_of_eq_None_iff option.distinct(1))
    with assms(1) show ?thesis unfolding f' provided_def by auto
  qed
qed

lemma provided_Make_each:
  "provided confs f \<Longrightarrow> Make_each names f w = (f', w') \<Longrightarrow> provided confs f'"
proof (induction names arbitrary: f w)
  case Nil then show ?case by simp
next
  case (Cons n ns)
  obtain r f1 w1 where m: "Factory_Make f n w = (r, f1, w1)" by (cases "Factory_Make f n w") auto
  with Cons.prems have "Make_each ns f1 w1 = (f', w')" by simp
  moreover have "provided confs f1" using provided_Factory_Make[OF Cons.prems(1) m] .
  ultimately show ?case using Cons.IH by blast
qed

lemma provided_NewFactory:
  "provided confs (NewFactory Provide_constructor \<lparr>env_p = p, env_queueConfs = confs\<rparr>)"
  by (simp add: provided_def NewFactory_def)

lemma logged_Factory_Make:
  "provided confs f \<Longrightarrow> Factory_Make f name w = (r, f', w') \<Longrightarrow> logged w' = logged w"
  apply (cases "cache f name")
   apply (cases "map_of confs name")
  apply (auto simp: Factory_Make_cached Factory_Make_missing Factory_Make_fresh)
  done

lemma logged_Make_each:
  "provided confs f \<Longrightarrow> Make_each names f w = (f', w') \<Longrightarrow> logged w' = logged w"
proof (induction names arbitrary: f w)
  case Nil then show ?case by simp
next
  case (Cons n ns)
  obtain r f1 w1 where m: "Factory_Make f n w = (r, f1, w1)" by (cases "Factory_Make f n w") auto
  with Cons.prems have "Make_each ns f1 w1 = (f', w')" by simp
  moreover have "provided confs f1" using provided_Factory_Make[OF Cons.prems(1) m] .
  ultimately have "logged w' = logged w1" using Cons.IH by blast
  with logged_Factory_Make[OF Cons.prems(1) m] show ?case by simp
qed

lemma DispatcherFactory_Make_missing:
  "provided confs f \<Longrightarrow> map_of confs name = None \<Longrightarrow>
   DispatcherFactory_Make f name w =
     (Return (None, Some (Error (''queue configuration '' @ name @ '' not found''))), f, w)"
  by (simp add: DispatcherFactory_Make_def Factory_Make_missing)

lemma DispatcherFactory_Make_provided:
  assumes "provided confs f"
  shows "\<exists>r e f' w'. DispatcherFactory_Make f name w = (Return (r, e), f', w') \<and> logged w' = logged w"
proof (cases "cache f name")
  case (Some slot)
  with assms obtain a where "Conn slot = DispatcherPtr a" unfolding provided_def by blast
  with Some show ?thesis by (simp add: DispatcherFactory_Make_def Factory_Make_cached)
next
  case None
  show ?thesis
  proof (cases "map_of confs name")
    case N: None
    with assms show ?thesis by (simp add: DispatcherFactory_Make_missing)
  next
    case (Some conf)
    show ?thesis by (simp add: DispatcherFactory_Make_def Factory_Make_fresh[OF assms None Some])
  qed
qed

lemma provided_DispatcherFactory_Make:
  assumes "provided confs f" and "DispatcherFactory_Make f name w = (r, f', w')"
  shows "provided confs f'"
proof -
  obtain r0 f0 w0 where m: "Factory_Make f name w = (r0, f0, w0)"
    by (cases "Factory_Make f name w") auto
  with assms(2) have "f' = f0"
    by (auto simp: DispatcherFactory_Make_def split: sum.splits conn.splits)
  with provided_Factory_Make[OF assms(1) m] show ?thesis by simp
qed

text \<open>
  \<^verbatim>\<open>Provide\<close> unfolded: the loop over the configured names, the lookup of "default", and
  the result, which never panics and carries no error.
\<close>

lemma Provide_unfold:
  assumes c: "Conf p ''queue'' = (err, confs)"
  shows "\<exists>f1 w2 r e f2 w3.
           Make_each (map fst confs) (NewFactory Provide_constructor \<lparr>env_p = p, env_queueConfs = confs\<rparr>)
             (case err of None \<Rightarrow> w | Some e \<Rightarrow> Warn_Log e w) = (f1, w2)
         \<and> provided confs f1
         \<and> DispatcherFactory_Make f1 ''default'' w2 = (Return (r, e), f2, w3)
         \<and> provided confs f2
         \<and> logged w3 = logged (case err of None \<Rightarrow> w | Some e \<Rightarrow> Warn_Log e w)
         \<and> Provide NumCPU p w =
             (Return (\<lparr>out_Dispatcher = Holds r, out_DispatcherMaker = Holds f2,
                       out_QueueableDispatcher = r, out_DispatcherFactory = f2,
                       out_ExportedConfig = provideConfig NumCPU\<rparr>, None), w3)"
proof -
  let ?w1 = "case err of None \<Rightarrow> w | Some e \<Rightarrow> Warn_Log e w"
  let ?f0 = "NewFactory Provide_constructor \<lparr>env_p = p, env_queueConfs = confs\<rparr>"
  obtain f1 w2 where l: "Make_each (map fst confs) ?f0 ?w1 = (f1, w2)"
    by (cases "Make_each (map fst confs) ?f0 ?w1") auto
  have p1: "provided confs f1" using provided_Make_each[OF provided_NewFactory l] .
  have l1: "logged w2 = logged ?w1" using logged_Make_each[OF provided_NewFactory l] .
  from DispatcherFactory_Make_provided[OF p1, of "''default''" w2]
  obtain r e f2 w3 where d: "DispatcherFactory_Make f1 ''default'' w2 = (Return (r, e), f2, w3)"
    and l2: "logged w3 = logged w2" by blast
  have p2: "provided confs f2" using provided_DispatcherFactory_Make[OF p1 d] .
  have "Provide NumCPU p w =
             (Return (\<lparr>out_Dispatcher = Holds r, out_DispatcherMaker = Holds f2,
                       out_QueueableDispatcher = r, out_DispatcherFactory = f2,
                       out_ExportedConfig = provideConfig NumCPU\<rparr>, None), w3)"
    using c l d by (simp add: Provide_def)
  with l p1 d p2 l1 l2 show ?thesis by auto
qed

text \<open>The cache only grows, and so does the heap.\<close>

lemma Factory_Make_cache_mono:
  "cache f name = Some slot \<Longrightarrow> Factory_Make f n w = (r, f', w') \<Longrightarrow> cache f' name = Some slot"
  by (auto simp: Factory_Make_def split: option.splits sum.splits prod.splits)

lemma Make_each_cache_mono:
  "cache f name = Some slot \<Longrightarrow> Make_each names f w = (f', w') \<Longrightarrow> cache f' name = Some slot"
proof (induction names arbitrary: f w)
  case Nil then show ?case by simp
next
  case (Cons n ns)
  obtain r f1 w1 where m: "Factory_Make f n w = (r, f1, w1)" by (cases "Factory_Make f n w") auto
  with Cons.prems have "Make_each ns f1 w1 = (f', w')" by simp
  moreover have "cache f1 name = Some slot" using Factory_Make_cache_mono[OF Cons.prems(1) m] .
  ultimately show ?case using Cons.IH by blast
qed

lemma DispatcherFactory_Make_caches:
  assumes "DispatcherFactory_Make s name w = (Return (r, None), s1, w1)"
  shows "\<exists>slot a. cache s1 name = Some slot \<and> Conn slot = DispatcherPtr a \<and> r = Some a"
  using assms
  by (auto simp: DispatcherFactory_Make_def Factory_Make_def
           split: option.splits sum.splits prod.splits conn.splits)

lemma Factory_Make_heap_grows:
  "provided confs f \<Longrightarrow> Factory_Make f n w = (r, f', w') \<Longrightarrow> \<exists>ds. heap w' = heap w @ ds"
  apply (cases "cache f n")
   apply (cases "map_of confs n")
  apply (auto simp: Factory_Make_cached Factory_Make_missing Factory_Make_fresh)
  done

lemma Make_each_heap_grows:
  "provided confs f \<Longrightarrow> Make_each names f w = (f', w') \<Longrightarrow> \<exists>ds. heap w' = heap w @ ds"
proof (induction names arbitrary: f w)
  case Nil then show ?case by simp
next
  case (Cons n ns)
  obtain r f1 w1 where m: "Factory_Make f n w = (r, f1, w1)" by (cases "Factory_Make f n w") auto
  with Cons.prems have "Make_each ns f1 w1 = (f', w')" by simp
  moreover have "provided confs f1" using provided_Factory_Make[OF Cons.prems(1) m] .
  ultimately obtain ds where "heap w' = heap w1 @ ds" using Cons.IH by blast
  moreover obtain ds1 where "heap w1 = heap w @ ds1"
    using Factory_Make_heap_grows[OF Cons.prems(1) m] by blast
  ultimately show ?case by simp
qed

lemma Make_each_constructs:
  assumes "provided confs f" and "n \<in> set names" and "map_of confs n \<noteq> None"
      and "Make_each names f w = (f', w')"
  shows "cache f' n \<noteq> None"
  using assms
proof (induction names arbitrary: f w)
  case Nil then show ?case by simp
next
  case (Cons x xs)
  obtain r f1 w1 where m: "Factory_Make f x w = (r, f1, w1)" by (cases "Factory_Make f x w") auto
  with Cons.prems have rest: "Make_each xs f1 w1 = (f', w')" by simp
  have p1: "provided confs f1" using provided_Factory_Make[OF Cons.prems(1) m] .
  show ?case
  proof (cases "n = x")
    case True
    have "cache f1 x \<noteq> None"
    proof (cases "cache f x")
      case None
      from Cons.prems(3) True obtain conf where "map_of confs x = Some conf" by auto
      from Factory_Make_fresh[OF Cons.prems(1) None this, of w] m show ?thesis by auto
    next
      case (Some slot)
      with m show ?thesis by (simp add: Factory_Make_cached)
    qed
    then obtain slot where "cache f1 x = Some slot" by auto
    from Make_each_cache_mono[OF this rest] True show ?thesis by simp
  next
    case False
    with Cons.prems(2) have "n \<in> set xs" by simp
    from Cons.IH[OF p1 this Cons.prems(3) rest] show ?thesis .
  qed
qed

text \<open>
  The loop over distinct configured names, started with gauge \<open>g\<close>: the dispatcher of the
  name that follows \<open>pre\<close> gets the labels of \<open>pre\<close> and its own.
\<close>

lemma Make_each_gauge:
  assumes "provided confs f"
      and "distinct names"
      and "set names \<subseteq> fst ` set confs"
      and "\<forall>n \<in> set names. cache f n = None"
      and "Gauge (env_p (captured f)) = Some g"
      and "Make_each names f w = (f', w')"
      and "names = pre @ n # post"
  shows "\<exists>a. cache f' n = Some \<lparr>Closer = None, Conn = DispatcherPtr a\<rparr> \<and> a < length (heap w')
           \<and> qd_gauge (heap w' ! a) = Some (g @ queue_labels (pre @ [n]))"
  using assms
proof (induction names arbitrary: f w g pre)
  case Nil then show ?case by simp
next
  case (Cons x xs)
  from Cons.prems(3) obtain conf where conf: "map_of confs x = Some conf"
    by (metis list.set_intros(1) map_of_eq_None_iff not_Some_eq subsetD)
  have none: "cache f x = None" using Cons.prems(4) by simp
  let ?a = "length (heap w)"
  let ?p1 = "labelled x (env_p (captured f))"
  let ?f1 = "f\<lparr>cache := (cache f)(x \<mapsto> \<lparr>Closer = None, Conn = DispatcherPtr ?a\<rparr>),
        captured := (captured f)\<lparr>env_p := ?p1\<rparr>\<rparr>"
  let ?w1 = "w\<lparr>heap := heap w @ [dispatcher_of ?p1 x conf]\<rparr>"
  have m: "Factory_Make f x w = (Inr (DispatcherPtr ?a), ?f1, ?w1)"
    using Factory_Make_fresh[OF Cons.prems(1) none conf] .
  have rest: "Make_each xs ?f1 ?w1 = (f', w')" using Cons.prems(6) m by simp
  have p1: "provided confs ?f1" using provided_Factory_Make[OF Cons.prems(1) m] .
  have g1: "Gauge ?p1 = Some (g @ [''queue'', x])"
    using Cons.prems(5) by (simp add: labelled_def Gauge_With_def)
  show ?case
  proof (cases pre)
    case Nil
    with Cons.prems(7) have nx: "n = x" by simp
    have "cache ?f1 x = Some \<lparr>Closer = None, Conn = DispatcherPtr ?a\<rparr>" by simp
    then have c: "cache f' x = Some \<lparr>Closer = None, Conn = DispatcherPtr ?a\<rparr>"
      using Make_each_cache_mono rest by blast
    obtain ds where h: "heap w' = heap ?w1 @ ds" using Make_each_heap_grows[OF p1 rest] by blast
    have "heap w' ! ?a = dispatcher_of ?p1 x conf" using h by (simp add: nth_append)
    then have "qd_gauge (heap w' ! ?a) = Some (g @ [''queue'', x])"
      using g1 by (simp add: dispatcher_of_def)
    moreover have "?a < length (heap w')" using h by simp
    ultimately show ?thesis using c nx Nil by (auto simp: queue_labels_def)
  next
    case (Cons y pre')
    with Cons.prems(7) have xs: "xs = pre' @ n # post" and yx: "y = x" by simp_all
    have "\<exists>a. cache f' n = Some \<lparr>Closer = None, Conn = DispatcherPtr a\<rparr> \<and> a < length (heap w')
           \<and> qd_gauge (heap w' ! a) = Some ((g @ [''queue'', x]) @ queue_labels (pre' @ [n]))"
    proof (rule Cons.IH[OF p1 _ _ _ _ rest xs])
      show "distinct xs" using Cons.prems(2) by simp
      show "set xs \<subseteq> fst ` set confs" using Cons.prems(3) by simp
      show "\<forall>n\<in>set xs. cache ?f1 n = None" using Cons.prems(2,4) by auto
      show "Gauge (env_p (captured ?f1)) = Some (g @ [''queue'', x])" using g1 by simp
    qed
    then show ?thesis using Cons yx by (simp add: queue_labels_def)
  qed
qed

text \<open>The definitions that evaluate the provider on a concrete input.\<close>

lemmas example_defs =
  world0_def conf_example_def p_example_def conf_malformed_def p_malformed_def
  Provide_def NewFactory_def Factory_Make_def DispatcherFactory_Make_def
  Provide_constructor_def alloc_def WithQueue_def Warn_Log_def Gauge_With_def

section \<open>The default configuration\<close>

text \<open>
  C7. The exported default configuration of the queue package is one entry owned by
  "queue" whose data, under "queue" and then "default", sets the parallelism to the number
  of processing units and the interval of the queue length check to 15 (seconds), which a
  dispatcher constructed from it turns into 15 000 000 000 nanoseconds.
\<close>

theorem provideConfig_default:
  "provideConfig NumCPU =
     [\<lparr>Owner = ''queue'',
       Data = [(''queue'',
                [(''default'',
                  \<lparr>Parallelism = NumCPU, CheckQueueLengthIntervalSecond = 15\<rparr>)])],
       Comment = ''''\<rparr>]
   \<and> (\<exists>conf. map_of (Data (hd (provideConfig NumCPU))) ''queue'' = Some conf
        \<and> map_of conf ''default''
            = Some \<lparr>Parallelism = NumCPU, CheckQueueLengthIntervalSecond = 15\<rparr>
        \<and> CheckQueueLengthIntervalSecond (the (map_of conf ''default'')) * time_Second
            = 15000000000)"
  by (simp add: provideConfig_def time_Second_def)

section \<open>The storage keys\<close>

lemma Sprintf_key_suffix:
  "4 \<le> length seg \<Longrightarrow> take 4 (rev (Sprintf_key seg app env name)) = take 4 (rev seg)"
  by (simp add: Sprintf_key_def)

lemma first_separator:
  "c \<notin> set xs \<Longrightarrow> c \<notin> set ys \<Longrightarrow> xs @ c # r = ys @ c # r' \<Longrightarrow> xs = ys \<and> r = r'"
proof (induction xs arbitrary: ys)
  case Nil
  then show ?case by (cases ys) auto
next
  case (Cons x xs)
  then show ?case by (cases ys) auto
qed

lemma Sprintf_key_inj:
  assumes "Sprintf_key seg a1 e1 n1 = Sprintf_key seg a2 e2 n2"
      and "colon_free a1" "colon_free e1" "colon_free a2" "colon_free e2"
  shows "a1 = a2 \<and> e1 = e2 \<and> n1 = n2"
proof -
  from assms(1) have "a1 @ CHR '':'' # (e1 @ CHR '':'' # n1) = a2 @ CHR '':'' # (e2 @ CHR '':'' # n2)"
    by (simp add: Sprintf_key_def)
  then have a: "a1 = a2 \<and> e1 @ CHR '':'' # n1 = e2 @ CHR '':'' # n2"
    using assms(2,4) unfolding colon_free_def by (rule first_separator[rotated 2])
  then have "e1 = e2 \<and> n1 = n2"
    using assms(3,5) unfolding colon_free_def by (intro first_separator[of "CHR '':''" e1 e2 n1 n2]) simp_all
  with a show ?thesis by simp
qed

lemma segment_key_Sprintf:
  "segment_key (channelConfig a e n) s = Sprintf_key (segment_name s) a e n"
  by (cases s) (simp_all add: channelConfig_def)

lemma segment_name_tail:
  "take 4 (rev (Sprintf_key (segment_name s) a e n)) = take 4 (rev (segment_name s))"
  by (cases s) (simp_all add: Sprintf_key_suffix)

lemma segment_names_differ:
  "take 4 (rev (segment_name s)) = take 4 (rev (segment_name t)) \<Longrightarrow> s = t"
  by (cases s; cases t) simp_all

text \<open>
  C4, as stated, fails: the key is the concatenation of the three names with ":" between
  them, so the application "svc" with the queue "local:jobs" and the application
  "svc:local" with the queue "jobs", both in the environment "local", get the same keys.
\<close>

theorem segment_keys_collide:
  "(''svc'', ''local'', ''local:jobs'') \<noteq> (''svc:local'', ''local'', ''jobs'')
   \<and> channelConfig ''svc'' ''local'' ''local:jobs'' = channelConfig ''svc:local'' ''local'' ''jobs''
   \<and> Waiting (channelConfig ''svc'' ''local'' ''local:jobs'') = ''{svc:local:local:jobs}:waiting''"
  by (simp add: channelConfig_def Sprintf_key_def)

text \<open>
  C4, amended. When the application names and the environments contain no ":", a key of
  one of the four segments Delayed, Failed, Reserved, Waiting of one (application,
  environment, queue) equals a key of another only if it is the same segment of the same
  triple.
\<close>

theorem segment_keys_never_shared:
  assumes "colon_free app1" and "colon_free env1" and "colon_free app2" and "colon_free env2"
      and "segment_key (channelConfig app1 env1 name1) s
             = segment_key (channelConfig app2 env2 name2) t"
  shows "s = t \<and> app1 = app2 \<and> env1 = env2 \<and> name1 = name2"
proof -
  have eq: "Sprintf_key (segment_name s) app1 env1 name1 = Sprintf_key (segment_name t) app2 env2 name2"
    using assms(5) by (simp only: segment_key_Sprintf)
  then have "take 4 (rev (Sprintf_key (segment_name s) app1 env1 name1))
           = take 4 (rev (Sprintf_key (segment_name t) app2 env2 name2))" by simp
  then have st: "s = t" using segment_names_differ by (simp only: segment_name_tail)
  with eq have "Sprintf_key (segment_name s) app1 env1 name1 = Sprintf_key (segment_name s) app2 env2 name2"
    by simp
  from Sprintf_key_inj[OF this assms(1,2,3,4)] st show ?thesis by simp
qed

theorem segment_keys_never_shared_witness:
  "colon_free ''shop'' \<and> colon_free ''production'' \<and> colon_free ''testing'' \<and>
   segment_key (channelConfig ''shop'' ''production'' ''mail'') Waiting_segment
      = ''{shop:production:mail}:waiting'' \<and>
   segment_key (channelConfig ''shop'' ''production'' ''mail'') Waiting_segment
      \<noteq> segment_key (channelConfig ''shop'' ''testing'' ''mail'') Waiting_segment"
  using segment_keys_never_shared[of "''shop''" "''production''" "''shop''" "''testing''"
          "''mail''" Waiting_segment "''mail''" Waiting_segment]
  by (auto simp add: colon_free_def channelConfig_def Sprintf_key_def)

section \<open>Errors of the configuration\<close>

text \<open>
  C5. A factory made by \<^verbatim>\<open>Provide\<close>, after any further calls of \<^verbatim>\<open>Make\<close>, answers a
  name that is not in the queue configuration with a nil dispatcher and the error "queue
  configuration ... not found", at once: the factory and the world are as before the call.
\<close>

theorem Make_unknown_queue:
  assumes "Provide NumCPU p w = (Return (out, err), w')"
      and "map_of (snd (Conf p ''queue'')) name = None"
      and "Make_each names (out_DispatcherFactory out) v = (f, v')"
  shows "DispatcherFactory_Make f name u =
           (Return (None, Some (Error (''queue configuration '' @ name @ '' not found''))), f, u)"
proof -
  obtain e confs where c: "Conf p ''queue'' = (e, confs)" by (cases "Conf p ''queue''") auto
  from Provide_unfold[OF c, of w NumCPU] assms(1)
  have "provided confs (out_DispatcherFactory out)" by auto
  then have "provided confs f" using assms(3) provided_Make_each by blast
  moreover have "map_of confs name = None" using assms(2) c by simp
  ultimately show ?thesis by (rule DispatcherFactory_Make_missing)
qed

theorem Make_unknown_queue_witness:
  "\<exists>out w' f v. Provide 4 p_example world0 = (Return (out, None), w')
     \<and> map_of (snd (Conf p_example ''queue'')) ''audit'' = None
     \<and> Make_each [''mail''] (out_DispatcherFactory out) w' = (f, v)
     \<and> DispatcherFactory_Make f ''audit'' v
         = (Return (None, Some (Error ''queue configuration audit not found'')), f, v)"
proof -
  have "\<exists>out w'. Provide 4 p_example world0 = (Return (out, None), w')"
    by (simp add: example_defs)
  then obtain out w' where P: "Provide 4 p_example world0 = (Return (out, None), w')" by blast
  have u: "map_of (snd (Conf p_example ''queue'')) ''audit'' = None"
    by (simp add: p_example_def conf_example_def)
  obtain f v where m: "Make_each [''mail''] (out_DispatcherFactory out) w' = (f, v)"
    by (cases "Make_each [''mail''] (out_DispatcherFactory out) w'") auto
  from Make_unknown_queue[OF P u m, of v] P u m show ?thesis by auto
qed

text \<open>
  C6, as stated, fails: with a "queue" section that does not unmarshal, \<^verbatim>\<open>Provide\<close>
  returns a nil error.
\<close>

theorem Provide_swallows_unmarshal_error:
  "fst (Conf p_malformed ''queue'') = Some (Error ''cannot unmarshal !!seq into map'')
   \<and> (\<exists>out w'. Provide 4 p_malformed world0 = (Return (out, None), w'))"
  by (simp add: example_defs)

text \<open>
  C6, amended. When the "queue" section fails to unmarshal, \<^verbatim>\<open>Provide\<close> logs the error
  at level warn, goes on with whatever was decoded (every decoded queue gets its
  dispatcher) and returns a nil error.
\<close>

theorem Provide_unmarshal_failure_logged:
  assumes "Conf p ''queue'' = (Some (Error msg), confs)"
  shows "\<exists>out w'. Provide NumCPU p w = (Return (out, None), w')
           \<and> logged w' = logged w @ [[''level'', ''warn'', ''err'', msg]]
           \<and> (\<forall>name. map_of confs name \<noteq> None \<longrightarrow> cache (out_DispatcherFactory out) name \<noteq> None)"
proof -
  from Provide_unfold[OF assms, of w NumCPU]
  obtain f1 w2 r e' f2 w3 where
    l: "Make_each (map fst confs) (NewFactory Provide_constructor \<lparr>env_p = p, env_queueConfs = confs\<rparr>)
             (Warn_Log (Error msg) w) = (f1, w2)" and
    d: "DispatcherFactory_Make f1 ''default'' w2 = (Return (r, e'), f2, w3)" and
    lg: "logged w3 = logged (Warn_Log (Error msg) w)" and
    P: "Provide NumCPU p w =
             (Return (\<lparr>out_Dispatcher = Holds r, out_DispatcherMaker = Holds f2,
                       out_QueueableDispatcher = r, out_DispatcherFactory = f2,
                       out_ExportedConfig = provideConfig NumCPU\<rparr>, None), w3)"
    by auto
  have c: "cache f2 name \<noteq> None" if "map_of confs name \<noteq> None" for name
  proof -
    from that have "name \<in> set (map fst confs)" by (simp add: map_of_eq_None_iff)
    from Make_each_constructs[OF provided_NewFactory this that l]
    obtain slot where s: "cache f1 name = Some slot" by auto
    obtain r0 f0 w0 where m: "Factory_Make f1 ''default'' w2 = (r0, f0, w0)"
      by (cases "Factory_Make f1 ''default'' w2") auto
    with d have "f0 = f2" by (auto simp: DispatcherFactory_Make_def split: sum.splits conn.splits)
    with Factory_Make_cache_mono[OF s m] show ?thesis by simp
  qed
  have "logged w3 = logged w @ [[''level'', ''warn'', ''err'', msg]]"
    using lg by (simp add: Warn_Log_def)
  with P c show ?thesis by simp
qed

theorem Provide_unmarshal_failure_logged_witness:
  "\<exists>out w'. Provide 4 p_malformed world0 = (Return (out, None), w')
           \<and> logged w' = [[''level'', ''warn'', ''err'', ''cannot unmarshal !!seq into map'']]"
  using Provide_unmarshal_failure_logged[of p_malformed "''cannot unmarshal !!seq into map''" "[]" 4 world0]
  by (simp add: p_malformed_def conf_malformed_def world0_def)

text \<open>
  C9. \<^verbatim>\<open>Provide\<close> returns a nil error on every input (and does not panic); an error of
  the unmarshalling is logged as a warning and nothing else is logged; without a "default"
  queue the \<^verbatim>\<open>QueueableDispatcher\<close> field is the nil pointer and the \<^verbatim>\<open>Dispatcher\<close>
  field holds that nil pointer.
\<close>

theorem Provide_nil_error:
  "\<exists>out w'. Provide NumCPU p w = (Return (out, None), w')
     \<and> logged w' = logged w @ (case fst (Conf p ''queue'') of
                                  None \<Rightarrow> []
                                | Some (Error msg) \<Rightarrow> [[''level'', ''warn'', ''err'', msg]])
     \<and> (map_of (snd (Conf p ''queue'')) ''default'' = None \<longrightarrow>
          out_QueueableDispatcher out = None \<and> out_Dispatcher out = Holds None)"
proof -
  obtain e confs where c: "Conf p ''queue'' = (e, confs)" by (cases "Conf p ''queue''") auto
  from Provide_unfold[OF c, of w NumCPU]
  obtain f1 w2 r e' f2 w3 where
    p1: "provided confs f1" and
    d: "DispatcherFactory_Make f1 ''default'' w2 = (Return (r, e'), f2, w3)" and
    l: "logged w3 = logged (case e of None \<Rightarrow> w | Some e \<Rightarrow> Warn_Log e w)" and
    P: "Provide NumCPU p w =
             (Return (\<lparr>out_Dispatcher = Holds r, out_DispatcherMaker = Holds f2,
                       out_QueueableDispatcher = r, out_DispatcherFactory = f2,
                       out_ExportedConfig = provideConfig NumCPU\<rparr>, None), w3)"
    by blast
  have "logged w3 = logged w @ (case fst (Conf p ''queue'') of
                                  None \<Rightarrow> []
                                | Some (Error msg) \<Rightarrow> [[''level'', ''warn'', ''err'', msg]])"
    using l c by (simp add: Warn_Log_def split: option.splits error.splits)
  moreover have "map_of confs ''default'' = None \<Longrightarrow> r = None"
    using DispatcherFactory_Make_missing[OF p1, of "''default''" w2] d by simp
  ultimately show ?thesis using P c by simp
qed

theorem Provide_nil_error_witness:
  "\<exists>out w'. Provide 8 p_malformed world0 = (Return (out, None), w')
     \<and> logged w' = [[''level'', ''warn'', ''err'', ''cannot unmarshal !!seq into map'']]
     \<and> out_QueueableDispatcher out = None \<and> out_Dispatcher out = Holds None"
  using Provide_nil_error[of 8 p_malformed world0]
  by (simp add: p_malformed_def conf_malformed_def world0_def)

section \<open>One dispatcher per name\<close>

text \<open>
  C8. When \<^verbatim>\<open>Make\<close> has succeeded for a name, every later \<^verbatim>\<open>Make\<close> of that name, also
  after calls for other names, returns the same dispatcher and constructs nothing: the
  factory and the world are as before the call.
\<close>

theorem Make_twice_same_instance:
  assumes "DispatcherFactory_Make s name w = (Return (r, None), s1, w1)"
      and "Make_each names s1 v = (s2, v')"
  shows "DispatcherFactory_Make s2 name u = (Return (r, None), s2, u)"
proof -
  from DispatcherFactory_Make_caches[OF assms(1)]
  obtain slot a where s: "cache s1 name = Some slot" and a: "Conn slot = DispatcherPtr a" "r = Some a"
    by blast
  have "cache s2 name = Some slot" using Make_each_cache_mono[OF s assms(2)] .
  with a show ?thesis by (simp add: DispatcherFactory_Make_def Factory_Make_cached)
qed

theorem Make_twice_same_instance_witness:
  "\<exists>s1 w1 s2 w2.
     DispatcherFactory_Make
       (NewFactory Provide_constructor
          \<lparr>env_p = p_example, env_queueConfs = snd (Conf p_example ''queue'')\<rparr>) ''mail'' world0
       = (Return (Some 0, None), s1, w1)
     \<and> Make_each [''default''] s1 w1 = (s2, w2)
     \<and> DispatcherFactory_Make s2 ''mail'' w2 = (Return (Some 0, None), s2, w2)"
proof -
  let ?f = "NewFactory Provide_constructor
          \<lparr>env_p = p_example, env_queueConfs = snd (Conf p_example ''queue'')\<rparr>"
  have "\<exists>s1 w1. DispatcherFactory_Make ?f ''mail'' world0 = (Return (Some 0, None), s1, w1)"
    by (simp add: example_defs)
  then obtain s1 w1 where
    a: "DispatcherFactory_Make ?f ''mail'' world0 = (Return (Some 0, None), s1, w1)" by blast
  obtain s2 w2 where b: "Make_each [''default''] s1 w1 = (s2, w2)"
    by (cases "Make_each [''default''] s1 w1") auto
  from Make_twice_same_instance[OF a b, of w2] a b show ?thesis by blast
qed

section \<open>The gauge\<close>

text \<open>
  C10. With a gauge \<open>g\<close> supplied, \<^verbatim>\<open>Provide\<close> constructs the dispatchers of the
  configured names in the order of the iteration, and the dispatcher of a name receives a
  gauge that carries, after the label values of \<open>g\<close>, the "queue" labels of all the names
  constructed before it and then its own.
\<close>

theorem Provide_gauge_labels_accumulate:
  assumes "Conf p ''queue'' = (err, confs)"
      and "distinct (map fst confs)"
      and "Gauge p = Some g"
      and "map fst confs = pre @ n # post"
      and "Provide NumCPU p w = (Return (out, e), w')"
  shows "\<exists>a. cache (out_DispatcherFactory out) n = Some \<lparr>Closer = None, Conn = DispatcherPtr a\<rparr>
           \<and> a < length (heap w')
           \<and> qd_gauge (heap w' ! a) = Some (g @ queue_labels (pre @ [n]))"
proof -
  let ?w1 = "case err of None \<Rightarrow> w | Some e \<Rightarrow> Warn_Log e w"
  let ?f0 = "NewFactory Provide_constructor \<lparr>env_p = p, env_queueConfs = confs\<rparr>"
  from Provide_unfold[OF assms(1), of w NumCPU] assms(5)
  obtain f1 w2 r e' where
    l: "Make_each (map fst confs) ?f0 ?w1 = (f1, w2)" and
    p1: "provided confs f1" and
    d: "DispatcherFactory_Make f1 ''default'' w2 = (Return (r, e'), out_DispatcherFactory out, w')"
    by auto
  have "\<exists>a. cache f1 n = Some \<lparr>Closer = None, Conn = DispatcherPtr a\<rparr> \<and> a < length (heap w2)
           \<and> qd_gauge (heap w2 ! a) = Some (g @ queue_labels (pre @ [n]))"
  proof (rule Make_each_gauge[OF provided_NewFactory assms(2) _ _ _ l assms(4)])
    show "set (map fst confs) \<subseteq> fst ` set confs" by simp
    show "\<forall>n\<in>set (map fst confs). cache ?f0 n = None" by (simp add: NewFactory_def)
    show "Gauge (env_p (captured ?f0)) = Some g" using assms(3) by (simp add: NewFactory_def)
  qed
  then obtain a where c: "cache f1 n = Some \<lparr>Closer = None, Conn = DispatcherPtr a\<rparr>"
    and a: "a < length (heap w2)" and g: "qd_gauge (heap w2 ! a) = Some (g @ queue_labels (pre @ [n]))"
    by blast
  obtain r0 f0 w0 where m: "Factory_Make f1 ''default'' w2 = (r0, f0, w0)"
    by (cases "Factory_Make f1 ''default'' w2") auto
  with d have eq: "f0 = out_DispatcherFactory out" "w0 = w'"
    by (auto simp: DispatcherFactory_Make_def split: sum.splits conn.splits)
  have c': "cache (out_DispatcherFactory out) n = Some \<lparr>Closer = None, Conn = DispatcherPtr a\<rparr>"
    using Factory_Make_cache_mono[OF c m] eq by simp
  obtain ds where h: "heap w' = heap w2 @ ds" using Factory_Make_heap_grows[OF p1 m] eq by auto
  have "heap w' ! a = heap w2 ! a" using h a by (simp add: nth_append)
  with c' a g h show ?thesis by auto
qed

theorem Provide_gauge_labels_accumulate_witness:
  "\<exists>out w' a. Provide 4 p_example world0 = (Return (out, None), w')
     \<and> cache (out_DispatcherFactory out) ''mail'' = Some \<lparr>Closer = None, Conn = DispatcherPtr a\<rparr>
     \<and> a < length (heap w')
     \<and> qd_gauge (heap w' ! a) = Some [''app'', ''shop'', ''queue'', ''default'', ''queue'', ''mail'']"
proof -
  have "\<exists>out w'. Provide 4 p_example world0 = (Return (out, None), w')"
    by (simp add: example_defs)
  then obtain out w' where P: "Provide 4 p_example world0 = (Return (out, None), w')" by blast
  have c: "Conf p_example ''queue'' =
             (None, [(''default'', \<lparr>Parallelism = 2, CheckQueueLengthIntervalSecond = 15\<rparr>),
                     (''mail'', \<lparr>Parallelism = 1, CheckQueueLengthIntervalSecond = 30\<rparr>)])"
    by (simp add: p_example_def conf_example_def)
  have d: "distinct (map fst [(''default'', \<lparr>Parallelism = 2, CheckQueueLengthIntervalSecond = 15\<rparr>),
                     (''mail'', \<lparr>Parallelism = 1 :: 64 word, CheckQueueLengthIntervalSecond = 30 :: 64 word\<rparr>)])"
    by simp
  have g: "Gauge p_example = Some [''app'', ''shop'']" by (simp add: p_example_def)
  have n: "map fst [(''default'', \<lparr>Parallelism = 2, CheckQueueLengthIntervalSecond = 15\<rparr>),
                     (''mail'', \<lparr>Parallelism = 1 :: 64 word, CheckQueueLengthIntervalSecond = 30 :: 64 word\<rparr>)]
           = [''default''] @ ''mail'' # []" by simp
  from Provide_gauge_labels_accumulate[OF c d g n P] P show ?thesis
    by (auto simp: queue_labels_def)
qed

section \<open>Segments of the driver\<close>

text \<open>Counting tokens through the moves between segments.\<close>

lemma count_partition:
  "count_list (map fst (filter P xs)) t + count_list (map fst (filter (\<lambda>x. \<not> P x) xs)) t
     = count_list (map fst xs) t"
  by (induction xs) auto

lemma count_insort:
  "count_list (map fst (insort_key f x xs)) t = count_list (map fst (x # xs)) t"
  by (induction xs) auto

lemma count_remove:
  "count_list (map fst (filter (\<lambda>r. fst r \<noteq> t) xs)) k
     = (if k = t then 0 else count_list (map fst xs) k)"
  by (induction xs) auto

lemma find_token:
  "find (\<lambda>r. fst r = t) xs = Some r \<Longrightarrow> fst r = t \<and> 0 < count_list (map fst xs) t"
  by (induction xs) (auto split: if_splits)

lemma count_list_pos: "x \<in> set xs \<Longrightarrow> 0 < count_list xs x"
  by (induction xs) auto

lemma memberships_Promote: "memberships (Promote now s) t = memberships s t"
proof -
  have "count_list (map fst (filter (is_due now) (delayed s))) t
        + count_list (map fst (filter (\<lambda>x. \<not> is_due now x) (delayed s))) t
        = count_list (map fst (delayed s)) t" by (rule count_partition)
  moreover have "count_list (map fst (filter (is_expired now) (reserved s))) t
        + count_list (map fst (filter (\<lambda>x. \<not> is_expired now x) (reserved s))) t
        = count_list (map fst (reserved s)) t" by (rule count_partition)
  moreover have "memberships (Promote now s) t =
      count_list (map fst (filter (\<lambda>x. \<not> is_due now x) (delayed s))) t
      + (count_list (map fst (waiting s)) t
         + count_list (map fst (filter (is_due now) (delayed s))) t
         + count_list (map fst (filter (is_expired now) (reserved s))) t)
      + count_list (map fst (filter (\<lambda>x. \<not> is_expired now x) (reserved s))) t
      + count_list (map fst (failed s)) t + count_list (deleted s) t"
    by (simp add: memberships_def Promote_def o_def)
  ultimately show ?thesis by (simp add: memberships_def)
qed

lemma memberships_Pop: "memberships (snd (Pop now s)) t = memberships s t"
  by (auto simp: memberships_def Pop_def split: list.splits)

lemma memberships_Push:
  "memberships (snd (Push e delay now s)) t = memberships s t + (if t = next_token s then 1 else 0)"
  by (simp add: memberships_def Push_def Let_def count_insort)

lemma reserved_once:
  assumes "well_formed s" and "find (\<lambda>r. fst r = t) (reserved s) = Some r"
  shows "count_list (map fst (reserved s)) t = 1"
proof -
  from find_token[OF assms(2)] have "0 < count_list (map fst (reserved s)) t" by simp
  moreover have "memberships s t \<le> 1" using assms(1) by (simp add: well_formed_def)
  ultimately show ?thesis by (simp add: memberships_def)
qed

lemma memberships_Ack: "well_formed s \<Longrightarrow> memberships (snd (Ack t s)) k = memberships s k"
  by (auto simp: memberships_def Ack_def count_remove dest: reserved_once split: option.splits)

lemma memberships_Fail: "well_formed s \<Longrightarrow> memberships (snd (Fail t s)) k = memberships s k"
  by (auto simp: memberships_def Fail_def count_remove dest: reserved_once split: option.splits)

lemma next_token_Push: "next_token (snd (Push e d now s)) = Suc (next_token s)"
  by (simp add: Push_def Let_def)

lemma next_token_Pop: "next_token (snd (Pop now s)) = next_token s"
  by (simp add: Pop_def split: list.splits)

lemma next_token_Ack: "next_token (snd (Ack t s)) = next_token s"
  by (simp add: Ack_def split: option.splits)

lemma next_token_Fail: "next_token (snd (Fail t s)) = next_token s"
  by (simp add: Fail_def split: option.splits)

lemma next_token_Promote: "next_token (Promote now s) = next_token s"
  by (simp add: Promote_def)

lemmas next_token_step =
  next_token_Push next_token_Pop next_token_Ack next_token_Fail next_token_Promote

lemma well_formed_step: "well_formed s \<Longrightarrow> well_formed (step x s)"
proof -
  assume wf: "well_formed s"
  obtain now x' where x: "x = (now, x')" by (cases x)
  show ?thesis
  proof (cases x')
    case (Push_op e d)
    with wf x show ?thesis by (auto simp: well_formed_def memberships_Push next_token_step)
  next
    case Pop_op
    with wf x show ?thesis by (simp add: well_formed_def memberships_Pop next_token_step)
  next
    case (Ack_op t)
    with wf x show ?thesis by (simp add: well_formed_def memberships_Ack[OF wf] next_token_step)
  next
    case (Fail_op t)
    with wf x show ?thesis by (simp add: well_formed_def memberships_Fail[OF wf] next_token_step)
  next
    case Promote_op
    with wf x show ?thesis by (simp add: well_formed_def memberships_Promote next_token_step)
  qed
qed

lemma well_formed_run: "well_formed s \<Longrightarrow> well_formed (run ops s)"
  by (induction ops arbitrary: s) (simp_all add: well_formed_step)

lemma well_formed_New: "well_formed (NewInProcessDriver timeout)"
  by (simp add: well_formed_def NewInProcessDriver_def memberships_def)

text \<open>
  C1. After any history of pushes, pops, acknowledgments, failures and promotions on a new
  driver, every token handed out by a push is in exactly one of Delayed, Waiting, Reserved,
  Failed and deleted, once; a token not yet handed out is in none.
\<close>

theorem segment_exclusivity:
  "memberships (run ops (NewInProcessDriver timeout)) t
     = (if t < next_token (run ops (NewInProcessDriver timeout)) then 1 else 0)"
  using well_formed_run[OF well_formed_New, of ops timeout] by (simp add: well_formed_def)

theorem segment_exclusivity_witness:
  "memberships (run [(0, Push_op (Of ''1'') 0), (1, Pop_op), (2, Ack_op 0), (3, Push_op (Of ''2'') 5)]
                  (NewInProcessDriver 30)) 0 = 1
   \<and> deleted (run [(0, Push_op (Of ''1'') 0), (1, Pop_op), (2, Ack_op 0), (3, Push_op (Of ''2'') 5)]
                  (NewInProcessDriver 30)) = [0]
   \<and> memberships (run [(0, Push_op (Of ''1'') 0), (1, Pop_op), (2, Ack_op 0), (3, Push_op (Of ''2'') 5)]
                  (NewInProcessDriver 30)) 2 = 0"
  using segment_exclusivity[of "[(0, Push_op (Of ''1'') 0), (1, Pop_op), (2, Ack_op 0), (3, Push_op (Of ''2'') 5)]" 30 0]
        segment_exclusivity[of "[(0, Push_op (Of ''1'') 0), (1, Pop_op), (2, Ack_op 0), (3, Push_op (Of ''2'') 5)]" 30 2]
  by (simp add: Push_def Pop_def Ack_def NewInProcessDriver_def Of_def visible_key_def)

text \<open>
  C2. \<^verbatim>\<open>Ack\<close> never returns an error, and a second \<^verbatim>\<open>Ack\<close> of a token returns no error
  and leaves the driver as it is, so every other event stays in its segment.
\<close>

theorem Ack_idempotent:
  "fst (Ack t s) = None \<and> Ack t (snd (Ack t s)) = (None, snd (Ack t s))"
proof -
  have "find (\<lambda>r. fst r = t) (filter (\<lambda>r. fst r \<noteq> t) xs) = None" for xs :: "(token \<times> event \<times> time) list"
    by (induction xs) auto
  then show ?thesis by (simp add: Ack_def split: option.splits)
qed

theorem Ack_idempotent_witness:
  "Ack 0 (snd (Ack 0 (run [(0, Push_op (Of ''1'') 0), (0, Push_op (Of ''2'') 0), (1, Pop_op), (1, Pop_op)]
                        (NewInProcessDriver 30))))
     = (None, snd (Ack 0 (run [(0, Push_op (Of ''1'') 0), (0, Push_op (Of ''2'') 0), (1, Pop_op), (1, Pop_op)]
                        (NewInProcessDriver 30))))
   \<and> map fst (reserved (snd (Ack 0 (run [(0, Push_op (Of ''1'') 0), (0, Push_op (Of ''2'') 0), (1, Pop_op), (1, Pop_op)]
                        (NewInProcessDriver 30))))) = [1]"
  using Ack_idempotent[of 0 "run [(0, Push_op (Of ''1'') 0), (0, Push_op (Of ''2'') 0), (1, Pop_op), (1, Pop_op)]
                        (NewInProcessDriver 30)"]
  by (simp add: Push_def Pop_def Ack_def NewInProcessDriver_def Of_def)

section \<open>Delayed events\<close>

text \<open>The example, promotion time by promotion time.\<close>

lemmas sim_defs = tick_def worker_step_def Promote_def Pop_def Ack_def Fail_def is_due_def
  is_expired_def Of_def example_listeners_def both_pending_def first_delivered_def

lemma tick_early: "now < 1000 \<Longrightarrow> tick now (both_pending timeout) = both_pending timeout"
  by (simp add: sim_defs)

lemma tick_due:
  "1000 \<le> now \<Longrightarrow> now < 3600000 \<Longrightarrow> tick now (both_pending timeout) = first_delivered timeout"
  by (simp add: sim_defs)

lemma tick_after:
  "now < 3600000 \<Longrightarrow> tick now (first_delivered timeout) = first_delivered timeout"
  by (simp add: sim_defs)

lemma Consume_after:
  "\<forall>now \<in> set ticks. now < 3600000 \<Longrightarrow>
   Consume ticks (first_delivered timeout) = first_delivered timeout"
  by (induction ticks) (simp_all add: Consume_def tick_after)

lemma Consume_pending:
  "\<forall>now \<in> set ticks. now < 3600000 \<Longrightarrow>
   Consume ticks (both_pending timeout) =
     (if \<exists>now \<in> set ticks. 1000 \<le> now then first_delivered timeout else both_pending timeout)"
proof (induction ticks)
  case Nil
  then show ?case by (simp add: Consume_def)
next
  case (Cons a ticks)
  show ?case
  proof (cases "a < 1000")
    case True
    with Cons show ?thesis by (auto simp: Consume_def tick_early)
  next
    case False
    then have "tick a (both_pending timeout) = first_delivered timeout"
      using Cons.prems by (simp add: tick_due)
    then show ?thesis using False Cons.prems Consume_after[of ticks timeout]
      by (auto simp: Consume_def)
  qed
qed

lemma dispatched_both:
  "snd (Dispatch 0 (Persist (Of ''2'') [Defer 3600000])
     (snd (Dispatch 0 (Persist (Of ''1'') [Defer 1000])
        \<lparr>drv = NewInProcessDriver timeout, listeners = example_listeners, printed = []\<rparr>)))
   = both_pending timeout"
  by (simp add: Dispatch_def Push_def NewInProcessDriver_def both_pending_def Of_def visible_key_def)

lemma promotion_times_bounded:
  "\<forall>now \<in> set (promotion_times interval 2000). now < 3600000"
proof
  fix now assume "now \<in> set (promotion_times interval 2000)"
  then have "now \<in> (\<lambda>i. i * interval) ` {1..<Suc (2000 div interval)}"
    unfolding promotion_times_def by (simp only: set_map set_upt)
  then obtain i where i: "now = i * interval" "i \<in> {1..<Suc (2000 div interval)}"
    by (rule imageE)
  then have "i \<le> 2000 div interval" by simp
  then have "i * interval \<le> (2000 div interval) * interval" by (rule mult_le_mono1)
  also have "\<dots> \<le> 2000" by simp
  finally show "now < 3600000" using i(1) by simp
qed

lemma promotion_times_hit:
  assumes "0 < interval" "interval \<le> 1000"
  shows "\<exists>now \<in> set (promotion_times interval 2000). 1000 \<le> now"
proof -
  let ?n = "2000 div interval"
  have "2000 = ?n * interval + 2000 mod interval" by simp
  moreover have "2000 mod interval < interval" using assms(1) by simp
  ultimately have big: "1000 \<le> ?n * interval" using assms(2) by linarith
  then have "?n \<noteq> 0" by (intro notI) simp
  then have "?n \<in> {1..<Suc ?n}" by simp
  then have "?n * interval \<in> set (promotion_times interval 2000)"
    unfolding promotion_times_def by (simp only: set_map set_upt image_eqI)
  with big show ?thesis by blast
qed

lemma Example_minimum_result:
  assumes "0 < interval" "interval \<le> 1000"
  shows "Example_minimum timeout interval = first_delivered timeout"
proof -
  have "Example_minimum timeout interval
          = Consume (promotion_times interval 2000) (both_pending timeout)"
    by (simp add: Example_minimum_def Let_def dispatched_both)
  also have "\<dots> = first_delivered timeout"
    using promotion_times_hit[OF assms]
    by (simp add: Consume_pending[OF promotion_times_bounded])
  finally show ?thesis .
qed

text \<open>A delayed event stays in Delayed until a promotion at or after its time.\<close>

lemma next_promotion_bounds:
  assumes "0 < interval"
  shows "t \<le> next_promotion interval t \<and> next_promotion interval t < t + interval"
proof -
  let ?m = "t + interval - 1"
  have eq: "?m = (?m div interval) * interval + ?m mod interval" by simp
  have lt: "?m mod interval < interval" using assms by simp
  have "(?m div interval) * interval \<le> ?m" by simp
  moreover have "?m < t + interval" using assms by simp
  ultimately have up: "next_promotion interval t < t + interval"
    unfolding next_promotion_def by (rule le_less_trans)
  have "t \<le> (?m div interval) * interval" using eq lt assms by linarith
  with up show ?thesis by (simp add: next_promotion_def)
qed

lemma delayed_kept_step:
  assumes "(k, e) \<in> set (delayed s)" and "visible_at e = Some v" and "fst x < v"
  shows "(k, e) \<in> set (delayed (step x s))"
proof -
  obtain now x' where x: "x = (now, x')" by (cases x)
  show ?thesis
  proof (cases x')
    case (Push_op e' d)
    with assms x show ?thesis by (simp add: Push_def Let_def set_insort_key)
  next
    case Pop_op
    with assms x show ?thesis by (simp add: Pop_def split: list.splits prod.splits)
  next
    case (Ack_op t)
    with assms x show ?thesis by (simp add: Ack_def split: option.splits)
  next
    case (Fail_op t)
    with assms x show ?thesis by (simp add: Fail_def split: option.splits)
  next
    case Promote_op
    with assms x show ?thesis by (simp add: Promote_def is_due_def)
  qed
qed

lemma delayed_kept_run:
  assumes "(k, e) \<in> set (delayed s)" and "visible_at e = Some v" and "\<forall>x \<in> set ops. fst x < v"
  shows "(k, e) \<in> set (delayed (run ops s))"
  using assms
proof (induction ops arbitrary: s)
  case Nil
  then show ?case by simp
next
  case (Cons x ops)
  have "(k, e) \<in> set (delayed (step x s))"
    using delayed_kept_step[OF Cons.prems(1,2)] Cons.prems(3) by simp
  from Cons.IH[OF this Cons.prems(2)] Cons.prems(3) show ?case by simp
qed

lemma delayed_not_waiting:
  assumes "well_formed s" and "(k, e) \<in> set (delayed s)"
  shows "k \<notin> fst ` set (waiting s)"
proof
  assume "k \<in> fst ` set (waiting s)"
  then have "k \<in> set (map fst (waiting s))" by simp
  then have w: "0 < count_list (map fst (waiting s)) k" by (rule count_list_pos)
  have "k \<in> set (map fst (delayed s))" using assms(2) by force
  then have d: "0 < count_list (map fst (delayed s)) k" by (rule count_list_pos)
  have "memberships s k \<le> 1" using assms(1) by (simp add: well_formed_def)
  with w d show False by (simp add: memberships_def)
qed

lemma Push_delayed:
  assumes "0 < d" and "Push e d t0 s = (k, s1)"
  shows "(k, e\<lparr>visible_at := Some (t0 + d)\<rparr>) \<in> set (delayed s1)"
  using assms by (auto simp: Push_def Let_def set_insort_key)

lemma Promote_due:
  assumes "(k, e) \<in> set (delayed s)" and "visible_at e = Some v" and "v \<le> now"
  shows "k \<in> fst ` set (waiting (Promote now s))"
proof -
  have "(k, e) \<in> set (filter (is_due now) (delayed s))"
    using assms by (simp add: is_due_def)
  then have "(k, e) \<in> set (waiting (Promote now s))" by (simp add: Promote_def)
  then show ?thesis by force
qed

text \<open>
  C3. An event pushed with a delay \<open>d > 0\<close> at time \<open>t0\<close>, on a driver with any history,
  is not in Waiting after any operations made before \<open>t0 + d\<close>; the first promotion at or
  after \<open>t0 + d\<close> comes less than one promotion interval after it and puts the event in
  Waiting. In the example, with a promotion interval of at most one second, the consumer
  that runs for two seconds prints exactly "1", has deleted the first event and leaves the
  second in Delayed.
\<close>

theorem delay_correctness:
  assumes "0 < d" and "0 < interval"
      and "Push e d t0 (run history (NewInProcessDriver timeout)) = (k, s1)"
      and "\<forall>x \<in> set ops. fst x < t0 + d"
  shows "k \<notin> fst ` set (waiting (run ops s1))
       \<and> t0 + d \<le> next_promotion interval (t0 + d)
       \<and> next_promotion interval (t0 + d) < t0 + d + interval
       \<and> k \<in> fst ` set (waiting (Promote (next_promotion interval (t0 + d)) (run ops s1)))
       \<and> (interval \<le> 1000 \<longrightarrow>
            printed (Example_minimum timeout interval) = [''1'']
            \<and> delayed (drv (Example_minimum timeout interval))
                = [(1, (Of ''2'')\<lparr>visible_at := Some 3600000\<rparr>)]
            \<and> deleted (drv (Example_minimum timeout interval)) = [0])"
proof -
  let ?e = "e\<lparr>visible_at := Some (t0 + d)\<rparr>"
  have s1: "s1 = step (t0, Push_op e d) (run history (NewInProcessDriver timeout))"
    using assms(3) by simp
  have wf1: "well_formed s1"
    unfolding s1 by (intro well_formed_step well_formed_run well_formed_New)
  have wf: "well_formed (run ops s1)" using wf1 by (rule well_formed_run)
  have v: "visible_at ?e = Some (t0 + d)" by simp
  have "(k, ?e) \<in> set (delayed s1)" using Push_delayed[OF assms(1,3)] .
  then have kept: "(k, ?e) \<in> set (delayed (run ops s1))"
    using v assms(4) by (rule delayed_kept_run)
  have a: "k \<notin> fst ` set (waiting (run ops s1))" using wf kept by (rule delayed_not_waiting)
  note b = next_promotion_bounds[OF assms(2), of "t0 + d"]
  have c: "k \<in> fst ` set (waiting (Promote (next_promotion interval (t0 + d)) (run ops s1)))"
    using kept v conjunct1[OF b] by (rule Promote_due)
  have "interval \<le> 1000 \<Longrightarrow> Example_minimum timeout interval = first_delivered timeout"
    using assms(2) by (rule Example_minimum_result)
  then show ?thesis using a b c by (simp add: first_delivered_def)
qed

theorem delay_correctness_witness:
  "0 \<notin> fst ` set (waiting (run [(500, Promote_op), (900, Pop_op)]
                              (snd (Push (Of ''1'') 1000 0 (NewInProcessDriver 60000)))))
   \<and> next_promotion 250 1000 = 1000
   \<and> 0 \<in> fst ` set (waiting (Promote 1000 (run [(500, Promote_op), (900, Pop_op)]
                              (snd (Push (Of ''1'') 1000 0 (NewInProcessDriver 60000))))))
   \<and> printed (Example_minimum 60000 250) = [''1'']"
proof -
  have h1: "(0::nat) < 1000" and h2: "(0::nat) < 250" by simp_all
  have h3: "Push (Of ''1'') 1000 0 (run [] (NewInProcessDriver 60000))
              = (0, snd (Push (Of ''1'') 1000 0 (NewInProcessDriver 60000)))"
    by (simp add: Push_def NewInProcessDriver_def)
  have h4: "\<forall>x \<in> set [(500, Promote_op), (900::nat, Pop_op)]. fst x < 0 + 1000" by simp
  have n: "next_promotion 250 1000 = 1000" by (simp add: next_promotion_def)
  from delay_correctness[OF h1 h2 h3 h4] n show ?thesis by simp
qed

end
